theory Spec2Isabelle
  imports Complex_Main "HOL-Library.Word" "HOL-Library.Multiset" "HOL-Library.Sublist"
begin

section \<open>JavaScript strings and the string built-ins the program calls\<close>

text \<open>
  A JavaScript string is a sequence of 16-bit code units. String literals of the source
  are ASCII (apart from the middle dot U+00B7 of the compact format) and are written
  with \<open>js\<close>.
\<close>

type_synonym jschar = "16 word"
type_synonym jstring = "jschar list"

definition js :: "string \<Rightarrow> jstring" where
  "js s = map of_char s"

abbreviation nl :: jschar where "nl \<equiv> 0x0A"
abbreviation slash :: jschar where "slash \<equiv> 0x2F"
abbreviation space :: jschar where "space \<equiv> 0x20"
abbreviation middle_dot :: jschar where "middle_dot \<equiv> 0xB7"

text \<open>
  The code units that \<open>String.prototype.trim\<close> strips and that the regular expression
  class \<open>\s\<close> matches: ECMAScript's WhiteSpace and LineTerminator.
\<close>

definition is_ws :: "jschar \<Rightarrow> bool" where
  "is_ws c \<longleftrightarrow>
     c \<in> {0x09, 0x0A, 0x0B, 0x0C, 0x0D, 0x20, 0xA0, 0x1680, 0x2028, 0x2029,
          0x202F, 0x205F, 0x3000, 0xFEFF}
     \<or> (0x2000 \<le> c \<and> c \<le> 0x200A)"

definition trim :: "jstring \<Rightarrow> jstring" where
  "trim s = rev (dropWhile is_ws (rev (dropWhile is_ws s)))"

text \<open>\<open>s.includes(ch)\<close> for a one-character needle.\<close>

definition includes_char :: "jstring \<Rightarrow> jschar \<Rightarrow> bool" where
  "includes_char s ch \<longleftrightarrow> ch \<in> set s"

text \<open>\<open>s.split(sep)\<close> for a one-character separator: the empty string gives \<open>[""]\<close>.\<close>

fun split_on :: "jschar \<Rightarrow> jstring \<Rightarrow> jstring list" where
  "split_on sep [] = [[]]"
| "split_on sep (c # cs) =
     (if c = sep then [] # split_on sep cs
      else (case split_on sep cs of
              [] \<Rightarrow> [[c]]
            | p # ps \<Rightarrow> (c # p) # ps))"

text \<open>\<open>xs.indexOf(x)\<close>: the first index of \<open>x\<close>, or -1.\<close>

fun indexOf :: "'a list \<Rightarrow> 'a \<Rightarrow> int" where
  "indexOf [] x = - 1"
| "indexOf (y # ys) x =
     (if y = x then 0
      else (let i = indexOf ys x in if i = - 1 then - 1 else i + 1))"

text \<open>\<open>xs[i]\<close>: reading outside the array gives \<open>undefined\<close>, here \<open>None\<close>.\<close>

definition at_index :: "'a list \<Rightarrow> int \<Rightarrow> 'a option" where
  "at_index xs i = (if 0 \<le> i \<and> i < int (length xs) then Some (xs ! nat i) else None)"

text \<open>Truthiness of a value that is a string, \<open>null\<close> or \<open>undefined\<close>.\<close>

fun truthy :: "jstring option \<Rightarrow> bool" where
  "truthy None = False"
| "truthy (Some s) = (s \<noteq> [])"

text \<open>\<open>v || d\<close> for such a value.\<close>

fun or_default :: "jstring option \<Rightarrow> jstring \<Rightarrow> jstring" where
  "or_default None d = d"
| "or_default (Some s) d = (if s = [] then d else s)"

text \<open>
  A template literal prints a non-negative integer in decimal (\<open>`d${c.depth}`\<close>).
\<close>

function number_to_string :: "nat \<Rightarrow> jstring" where
  "number_to_string n =
     (if n < 10 then [of_nat (48 + n)]
      else number_to_string (n div 10) @ [of_nat (48 + n mod 10)])"
  by pat_completeness auto
termination
  by (relation "measure (\<lambda>n. n)") auto

declare number_to_string.simps [simp del]

text \<open>
  \<open>s.replace(/C{k,}/g, r)\<close> for a character class \<open>C\<close>: scanning from the left, every
  maximal run of at least \<open>k\<close> characters of the class is replaced by \<open>r\<close>; a shorter run
  is not a match and stays. The program uses \<open>/\s+/g\<close> (\<open>k = 1\<close>) and \<open>/\n{2,}/g\<close>
  (\<open>k = 2\<close>).
\<close>

function replace_runs :: "(jschar \<Rightarrow> bool) \<Rightarrow> nat \<Rightarrow> jstring \<Rightarrow> jstring \<Rightarrow> jstring" where
  "replace_runs C k r [] = []"
| "replace_runs C k r (c # cs) =
     (if C c then
        (let run = c # takeWhile C cs;
             rest = dropWhile C cs
         in (if k \<le> length run then r else run) @ replace_runs C k r rest)
      else c # replace_runs C k r cs)"
  by pat_completeness auto
termination
  by (relation "measure (\<lambda>(C, k, r, s). length s)")
     (auto simp: length_dropWhile_le less_Suc_eq_le)

section \<open>Identifier normalizer\<close>

text \<open>
  \<open>normalizeToPostId\<close> (App.tsx, lines 26-39). The URL class is the platform's: its
  parser is a parameter \<open>url_pathname\<close> that gives the \<open>pathname\<close> of the parsed URL, or
  \<open>None\<close> where \<open>new URL\<close> throws. The result \<open>None\<close> is the source's \<open>null\<close>.
\<close>

definition normalizeToPostId :: "(jstring \<Rightarrow> jstring option) \<Rightarrow> jstring \<Rightarrow> jstring option" where
  "normalizeToPostId url_pathname raw =
     (let trimmed = trim raw in
      if \<not> includes_char trimmed slash \<and> \<not> includes_char trimmed space then Some trimmed
      else
        (case url_pathname trimmed of
           None \<Rightarrow> None
         | Some pathname \<Rightarrow>
             (let parts = filter (\<lambda>p. p \<noteq> []) (split_on slash pathname);
                  idx = indexOf parts (js ''comments'')
              in if idx = - 1 \<or> \<not> truthy (at_index parts (idx + 1)) then None
                 else at_index parts (idx + 1))))"

section \<open>Tree flattener\<close>

text \<open>
  A score as the API's JSON can carry it: absent, \<open>null\<close> or a number. Numbers are
  modelled as exact integers.
\<close>

datatype jsnum = Undefined | Null | Num int

text \<open>\<open>c.score || 0\<close>\<close>

fun or_zero :: "jsnum \<Rightarrow> int" where
  "or_zero (Num n) = n"
| "or_zero Undefined = 0"
| "or_zero Null = 0"

text \<open>The \<open>data\<close> of a node of kind \<open>t1\<close>, without its replies.\<close>

record raw_comment =
  raw_id :: jstring
  raw_author :: "jstring option"
  raw_score :: jsnum
  raw_body :: "jstring option"
  raw_parent_id :: jstring

text \<open>
  A node of the reply listing: a comment (kind \<open>t1\<close>) with \<open>replies.data.children\<close>
  when it has them, or anything else (a missing item, a "load more" node), whatever
  it holds.
\<close>

datatype item = T1 raw_comment "item list option" | NotT1 "item list"

record CommentItem =
  comment_id :: jstring
  author :: jstring
  score :: jsnum
  body :: jstring
  parent_id :: jstring
  depth :: nat

text \<open>The record that \<open>walkComments\<close> pushes (lines 46-53).\<close>

definition push_item :: "raw_comment \<Rightarrow> nat \<Rightarrow> CommentItem" where
  "push_item c d =
     \<lparr>comment_id = raw_id c,
      author = or_default (raw_author c) (js ''[deleted]''),
      score = raw_score c,
      body = or_default (raw_body c) [],
      parent_id = raw_parent_id c,
      depth = d\<rparr>"

text \<open>
  \<open>walkComments\<close> (lines 41-59): the loop over \<open>items\<close>, with the array \<open>out\<close> passed
  through and returned.
\<close>

fun walkComments :: "item list \<Rightarrow> nat \<Rightarrow> CommentItem list \<Rightarrow> CommentItem list" where
  "walkComments [] d out = out"
| "walkComments (NotT1 sub # items) d out = walkComments items d out"
| "walkComments (T1 c None # items) d out = walkComments items d (out @ [push_item c d])"
| "walkComments (T1 c (Some children) # items) d out =
     walkComments items d (walkComments children (d + 1) (out @ [push_item c d]))"

section \<open>Comment formatters\<close>

text \<open>\<open>formatCommentLLM\<close> (lines 62-67).\<close>

definition formatCommentLLM :: "CommentItem \<Rightarrow> jstring" where
  "formatCommentLLM c =
     (let depthLabel = js ''d'' @ number_to_string (depth c);
          trimmed_body = trim (body c)
      in if trimmed_body = [] then []
         else js ''['' @ depthLabel @ js ''] u/'' @ author c @ [nl] @ trimmed_body @ [nl, nl])"

text \<open>\<open>formatCommentToon\<close> (lines 70-75).\<close>

definition formatCommentToon :: "CommentItem \<Rightarrow> jstring" where
  "formatCommentToon c =
     (let depthLabel = js ''d'' @ number_to_string (depth c);
          oneLineBody = trim (replace_runs is_ws 1 [space] (body c))
      in if oneLineBody = [] then []
         else depthLabel @ [space, middle_dot, space] @ js ''u/'' @ author c @ js '': ''
              @ oneLineBody @ [nl])"

section \<open>Orchestrator: the pipeline of \<open>fetchThread\<close>\<close>

text \<open>The post's \<open>data\<close> (\<open>data[0].data.children[0].data\<close>), with the fields the program reads.\<close>

record Post =
  title :: jstring
  subreddit :: jstring
  post_author :: "jstring option"
  selftext :: "jstring option"
  post_score :: int

record Stats =
  postScore :: int
  totalComments :: nat
  totalCommentScore :: int
  avgCommentScore :: real
  commentsPerScorePoint :: real

text \<open>
  \<open>comments.sort((a, b) => b.score - a.score)\<close> (line 124). In the subtraction a missing
  score is NaN and \<open>null\<close> is 0; \<open>sort\<close> reads a comparator result NaN as 0.
  \<open>Array.prototype.sort\<close> is stable (ECMAScript 2019), so with a consistent comparator its
  result is the one that insertion from the right computes.
\<close>

fun to_number :: "jsnum \<Rightarrow> int option" where
  "to_number Undefined = None"
| "to_number Null = Some 0"
| "to_number (Num n) = Some n"

definition by_score :: "CommentItem \<Rightarrow> CommentItem \<Rightarrow> int" where
  "by_score a b =
     (case (to_number (score b), to_number (score a)) of
        (Some x, Some y) \<Rightarrow> x - y
      | _ \<Rightarrow> 0)"

fun insert_by :: "('a \<Rightarrow> 'a \<Rightarrow> int) \<Rightarrow> 'a \<Rightarrow> 'a list \<Rightarrow> 'a list" where
  "insert_by cmp x [] = [x]"
| "insert_by cmp x (y # ys) = (if cmp x y \<le> 0 then x # y # ys else y # insert_by cmp x ys)"

definition array_sort :: "('a \<Rightarrow> 'a \<Rightarrow> int) \<Rightarrow> 'a list \<Rightarrow> 'a list" where
  "array_sort cmp xs = foldr (insert_by cmp) xs []"

text \<open>Lines 120-124: the flattened comments, sorted.\<close>

definition sorted_comments :: "item list \<Rightarrow> CommentItem list" where
  "sorted_comments commentsRaw = array_sort by_score (walkComments commentsRaw 0 [])"

text \<open>
  Lines 126-142: the statistics. The divisions are JavaScript's floating-point
  divisions, modelled as exact.
\<close>

definition newStats :: "Post \<Rightarrow> CommentItem list \<Rightarrow> Stats" where
  "newStats post comments =
     (let n = length comments;
          total = foldl (\<lambda>acc c. acc + or_zero (score c)) 0 comments;
          avg = (if n > 0 then real_of_int total / real n else 0);
          per_point = (if total > 0 then real n / real_of_int total else 0)
      in \<lparr>postScore = post_score post,
          totalComments = n,
          totalCommentScore = total,
          avgCommentScore = avg,
          commentsPerScorePoint = per_point\<rparr>)"

text \<open>Lines 148-149.\<close>

definition postAuthor :: "Post \<Rightarrow> jstring" where
  "postAuthor post =
     (if truthy (post_author post) then js ''u/'' @ the (post_author post)
      else js ''[unknown]'')"

definition post_body :: "Post \<Rightarrow> jstring" where
  "post_body post = trim (or_default (selftext post) [])"

text \<open>Lines 152-162: the LLM text as assembled, before the pass of line 164.\<close>

definition llm_assembled :: "Post \<Rightarrow> CommentItem list \<Rightarrow> jstring" where
  "llm_assembled post comments =
     (let llm = [];
          llm = llm @ js ''TITLE: '' @ title post @ [nl];
          llm = llm @ js ''SUBREDDIT: r/'' @ subreddit post @ [nl];
          llm = llm @ js ''POST_AUTHOR: '' @ postAuthor post @ [nl, nl];
          llm = llm @ js ''POST_BODY:'' @ [nl];
          llm = llm @ (if post_body post \<noteq> [] then post_body post @ [nl, nl]
                       else js ''(no body)'' @ [nl, nl]);
          llm = llm @ js ''COMMENTS:'' @ [nl];
          llm = llm @ js ''# [dX] u/author'' @ [nl] @ js ''# comment text'' @ [nl, nl];
          llm = foldl (\<lambda>llm c. llm @ formatCommentLLM c) llm comments
      in llm)"

text \<open>Line 164: \<open>llm.replace(/\n{2,}/g, "\n")\<close>.\<close>

definition render_llm :: "Post \<Rightarrow> CommentItem list \<Rightarrow> jstring" where
  "render_llm post comments = replace_runs (\<lambda>c. c = nl) 2 [nl] (llm_assembled post comments)"

text \<open>Lines 167-176 and line 177: the compact text.\<close>

definition toon_assembled :: "Post \<Rightarrow> CommentItem list \<Rightarrow> jstring" where
  "toon_assembled post comments =
     (let toon = [];
          toon = toon @ js ''TITLE: '' @ title post @ [nl];
          toon = toon @ js ''SUBREDDIT: r/'' @ subreddit post @ [nl];
          toon = toon @ js ''POST_AUTHOR: '' @ postAuthor post @ [nl, nl];
          toon = toon @ js ''POST_BODY: '';
          toon = toon @ (if post_body post \<noteq> [] then post_body post @ [nl, nl]
                         else js ''(no body)'' @ [nl, nl]);
          toon = toon @ js ''COMMENTS:'' @ [nl];
          toon = foldl (\<lambda>toon c. toon @ formatCommentToon c) toon comments
      in toon)"

definition render_toon :: "Post \<Rightarrow> CommentItem list \<Rightarrow> jstring" where
  "render_toon post comments = replace_runs (\<lambda>c. c = nl) 2 [nl] (toon_assembled post comments)"

text \<open>
  Lines 180-194: the object handed to \<open>JSON.stringify\<close>. A JavaScript value of the shapes
  that occur here; object keys are in insertion order.
\<close>

datatype js_value =
    VUndefined
  | VNull
  | VNumber real
  | VString jstring
  | VArray "js_value list"
  | VObject "(string \<times> js_value) list"

fun value_of_jsnum :: "jsnum \<Rightarrow> js_value" where
  "value_of_jsnum Undefined = VUndefined"
| "value_of_jsnum Null = VNull"
| "value_of_jsnum (Num n) = VNumber (real_of_int n)"

definition stats_value :: "Stats \<Rightarrow> js_value" where
  "stats_value st =
     VObject
       [(''postScore'', VNumber (real_of_int (postScore st))),
        (''totalComments'', VNumber (real (totalComments st))),
        (''totalCommentScore'', VNumber (real_of_int (totalCommentScore st))),
        (''avgCommentScore'', VNumber (avgCommentScore st)),
        (''commentsPerScorePoint'', VNumber (commentsPerScorePoint st))]"

definition jsonObj :: "Post \<Rightarrow> Stats \<Rightarrow> CommentItem list \<Rightarrow> js_value" where
  "jsonObj post st comments =
     VObject
       [(''title'', VString (title post)),
        (''subreddit'', VString (subreddit post)),
        (''postAuthor'', VString (postAuthor post)),
        (''body'', VString (post_body post)),
        (''stats'', stats_value st),
        (''comments'',
           VArray
             (map (\<lambda>c. VObject
                      [(''id'', VString (comment_id c)),
                       (''author'', VString (author c)),
                       (''body'', VString (body c)),
                       (''score'', value_of_jsnum (score c)),
                       (''depth'', VNumber (real (depth c))),
                       (''parent_id'', VString (parent_id c))])
                comments))]"

record Outputs =
  txt_out :: jstring
  toon_out :: jstring
  json_out :: jstring

text \<open>
  The application state of \<open>App\<close> (lines 78-89), and \<open>requests\<close>: the URLs handed to
  \<open>fetch\<close> so far, which makes the network effect visible.
\<close>

record AppState =
  input :: jstring
  loading :: bool
  error :: jstring
  stats :: "Stats option"
  metaTitle :: "jstring option"
  metaSubreddit :: "jstring option"
  outputs :: Outputs
  requests :: "jstring list"

text \<open>
  What \<open>fetch\<close> and \<open>res.json()\<close> give: the request fails, the status is not ok, or a body
  arrives; a body that is not JSON of the expected shape makes the pipeline throw
  (\<open>None\<close>).
\<close>

record payload =
  payload_post :: Post
  payload_comments :: "item list"

datatype response = Fetch_rejected | Status_not_ok | Status_ok "payload option"

text \<open>
  \<open>fetchThread\<close> (lines 91-204), from the state it is called in to the state it leaves.
  The platform's URL parser, \<open>fetch\<close> and \<open>JSON.stringify\<close> are parameters.
\<close>

definition fetchThread ::
  "(jstring \<Rightarrow> jstring option) \<Rightarrow> (jstring \<Rightarrow> response) \<Rightarrow> (js_value \<Rightarrow> jstring) \<Rightarrow>
   jstring \<Rightarrow> AppState \<Rightarrow> AppState" where
  "fetchThread url_pathname fetch stringify raw st0 =
     (let st = st0\<lparr>loading := True, error := [], stats := None, metaTitle := None,
                   metaSubreddit := None,
                   outputs := \<lparr>txt_out = [], toon_out = [], json_out = []\<rparr>\<rparr>;
          postId = normalizeToPostId url_pathname raw
      in if \<not> truthy postId then st\<lparr>error := js ''Invalid URL or Post ID.'', loading := False\<rparr>
         else
           (let url = js ''https://www.reddit.com/comments/'' @ the postId @ js ''.json?raw_json=1'';
                st = st\<lparr>requests := requests st @ [url]\<rparr>
            in case fetch url of
                 Fetch_rejected \<Rightarrow> st\<lparr>error := js ''Network error.'', loading := False\<rparr>
               | Status_not_ok \<Rightarrow>
                   st\<lparr>error := js ''Failed to load Reddit thread.'', loading := False\<rparr>
               | Status_ok None \<Rightarrow> st\<lparr>error := js ''Network error.'', loading := False\<rparr>
               | Status_ok (Some data) \<Rightarrow>
                   (let post = payload_post data;
                        comments = sorted_comments (payload_comments data);
                        st = st\<lparr>stats := Some (newStats post comments),
                                metaTitle := Some (title post),
                                metaSubreddit := Some (subreddit post)\<rparr>
                    in st\<lparr>outputs :=
                            \<lparr>txt_out = render_llm post comments,
                             toon_out = render_toon post comments,
                             json_out = stringify (jsonObj post (newStats post comments) comments)\<rparr>,
                          loading := False\<rparr>)))"



section \<open>Reference definitions for the stated properties\<close>

subsection \<open>Flattening\<close>



subsection \<open>Joining\<close>

text \<open>\<open>parts.join(sep)\<close>, to say what \<open>split\<close> computes.\<close>

fun join_with :: "jschar \<Rightarrow> jstring list \<Rightarrow> jstring" where
  "join_with sep [] = []"
| "join_with sep [p] = p"
| "join_with sep (p # q # ps) = p @ sep # join_with sep (q # ps)"

subsection \<open>Example data\<close>

definition example_post :: Post where
  "example_post =
     \<lparr>title = js ''Hello'', subreddit = js ''test'', post_author = Some (js ''alice''),
      selftext = None, post_score = 10\<rparr>"

definition example_raw :: "jstring \<Rightarrow> int \<Rightarrow> jstring \<Rightarrow> raw_comment" where
  "example_raw name n text_body =
     \<lparr>raw_id = name, raw_author = Some (js ''bob''), raw_score = Num n,
      raw_body = Some text_body, raw_parent_id = js ''t3_abc123''\<rparr>"

text \<open>The scenario of the specification: two top-level comments with scores 5 and -1.\<close>

definition example_thread :: "item list" where
  "example_thread =
     [T1 (example_raw (js ''c1'') (- 1) (js ''second thoughts'')) None,
      T1 (example_raw (js ''c2'') 5 (js ''first!'')) None]"


text \<open>A thread whose only comment has been voted down to -1.\<close>

definition downvoted_thread :: "item list" where
  "downvoted_thread = [T1 (example_raw (js ''c1'') (- 1) (js ''meh'')) None]"

subsection \<open>URLs of the examples\<close>

text \<open>
  A stand-in for the platform's URL parser on the inputs of the examples: the
  \<open>pathname\<close> that \<open>new URL\<close> gives for the thread URL of the specification and for
  \<open>mailto:x\<close> (an absolute URL without a slash, whose path is \<open>x\<close>); every other input is
  taken as not parseable.
\<close>

definition example_url_pathname :: "jstring \<Rightarrow> jstring option" where
  "example_url_pathname s =
     (if s = js ''https://example.com/r/test/comments/abc123/title_slug/''
      then Some (js ''/r/test/comments/abc123/title_slug/'')
      else if s = js ''mailto:x'' then Some (js ''x'')
      else None)"

text \<open>A URL parser that fails on every input, and a serialiser that writes nothing.\<close>

definition failing_url_parser :: "jstring \<Rightarrow> jstring option" where
  "failing_url_parser s = None"


subsection \<open>States and platform stand-ins of the examples\<close>



subsection \<open>Rendered text\<close>

text \<open>The three header lines that both text formats start with.\<close>

definition header_block :: "Post \<Rightarrow> jstring" where
  "header_block post =
     js ''TITLE: '' @ title post @ [nl]
     @ js ''SUBREDDIT: r/'' @ subreddit post @ [nl]
     @ js ''POST_AUTHOR: '' @ postAuthor post @ [nl, nl]"

text \<open>The trimmed self-text, or the sentinel when it is empty.\<close>

definition body_or_sentinel :: "Post \<Rightarrow> jstring" where
  "body_or_sentinel post = (if post_body post = [] then js ''(no body)'' else post_body post)"

text \<open>The body section of the LLM text: the label on a line of its own.\<close>

definition llm_body_section :: "Post \<Rightarrow> jstring" where
  "llm_body_section post = js ''POST_BODY:'' @ [nl] @ body_or_sentinel post @ [nl, nl]"

text \<open>The body section of the compact text: label and body on one line.\<close>

definition toon_body_section :: "Post \<Rightarrow> jstring" where
  "toon_body_section post = js ''POST_BODY: '' @ body_or_sentinel post @ [nl, nl]"

text \<open>The two legend lines under the \<open>COMMENTS:\<close> heading of the LLM text.\<close>

definition llm_legend :: jstring where
  "llm_legend = js ''# [dX] u/author'' @ [nl] @ js ''# comment text'' @ [nl, nl]"

text \<open>
  The block of one comment in the LLM text: the depth label in brackets and the author
  on one line, then the trimmed body; nothing for a comment whose trimmed body is empty.
\<close>

definition llm_block :: "CommentItem \<Rightarrow> jstring" where
  "llm_block c =
     (if trim (body c) = [] then []
      else js ''[d'' @ number_to_string (depth c) @ js '']'' @ js '' u/'' @ author c @ [nl]
           @ trim (body c) @ [nl, nl])"

text \<open>
  The LLM text as C3 words it: header, body section, the \<open>COMMENTS:\<close> heading and then
  the comment blocks, with nothing between the heading and the blocks.
\<close>

definition claimed_llm_text :: "Post \<Rightarrow> CommentItem list \<Rightarrow> jstring" where
  "claimed_llm_text post comments =
     header_block post @ llm_body_section post @ js ''COMMENTS:'' @ [nl]
     @ concat (map llm_block comments)"

text \<open>
  The words of a text: its maximal runs of characters that are not whitespace, in
  order.
\<close>

function ws_words :: "jstring \<Rightarrow> jstring list" where
  "ws_words [] = []"
| "ws_words (c # cs) =
     (if is_ws c then ws_words cs
      else (c # takeWhile (\<lambda>x. \<not> is_ws x) cs) # ws_words (dropWhile (\<lambda>x. \<not> is_ws x) cs))"
  by pat_completeness auto
termination
  by (relation "measure length") (auto simp: length_dropWhile_le less_Suc_eq_le)

text \<open>
  The line of one comment in the compact text: depth label, middle dot, author, colon,
  and the words of the body with one space between them; nothing for a body without
  words.
\<close>

definition toon_line :: "CommentItem \<Rightarrow> jstring" where
  "toon_line c =
     (if ws_words (body c) = [] then []
      else js ''d'' @ number_to_string (depth c) @ [space, middle_dot, space] @ js ''u/''
           @ author c @ js '': '' @ join_with space (ws_words (body c)) @ [nl])"

text \<open>A text without two newline characters in a row.\<close>

fun has_double_nl :: "jstring \<Rightarrow> bool" where
  "has_double_nl (a # b # cs) = ((a = nl \<and> b = nl) \<or> has_double_nl (b # cs))"
| "has_double_nl [a] = False"
| "has_double_nl [] = False"

text \<open>A text with every newline that follows a newline removed.\<close>

fun squeeze_nl :: "jstring \<Rightarrow> jstring" where
  "squeeze_nl (a # b # cs) =
     (if a = nl \<and> b = nl then squeeze_nl (b # cs) else a # squeeze_nl (b # cs))"
| "squeeze_nl [a] = [a]"
| "squeeze_nl [] = []"

text \<open>A comment of the examples, as flattened at depth \<open>d\<close>.\<close>

definition example_comment :: "int \<Rightarrow> jstring \<Rightarrow> nat \<Rightarrow> CommentItem" where
  "example_comment n text_body d = push_item (example_raw (js ''c1'') n text_body) d"

text \<open>
  The start of the compact text as C4 words it: the header and the body section of the
  LLM text.
\<close>

definition claimed_toon_start :: "Post \<Rightarrow> jstring" where
  "claimed_toon_start post = header_block post @ llm_body_section post"

subsection \<open>JSON\<close>




section \<open>The tree flattener\<close>





section \<open>The statistics\<close>

lemma foldl_add_sum_list:
  "foldl (\<lambda>acc c. acc + f c) a xs = (a::int) + sum_list (map f xs)"
  by (induction xs arbitrary: a) simp_all

text \<open>
  C1, as the code has it. The total is the sum of the scores, a missing or null score
  counting 0; the average is total / count when there is a comment and 0 when there is
  none; comments per score point is count / total when the total is positive and 0
  when the total is zero or negative.
\<close>

theorem newStats_formulas:
  "totalComments (newStats post comments) = length comments
   \<and> totalCommentScore (newStats post comments) =
       sum_list (map (\<lambda>c. case score c of Num n \<Rightarrow> n | Undefined \<Rightarrow> 0 | Null \<Rightarrow> 0) comments)
   \<and> avgCommentScore (newStats post comments) =
       (if 0 < totalComments (newStats post comments)
        then real_of_int (totalCommentScore (newStats post comments))
             / real (totalComments (newStats post comments))
        else 0)
   \<and> commentsPerScorePoint (newStats post comments) =
       (if 0 < totalCommentScore (newStats post comments)
        then real (totalComments (newStats post comments))
             / real_of_int (totalCommentScore (newStats post comments))
        else 0)
   \<and> postScore (newStats post comments) = post_score post"
proof -
  have "or_zero s = (case s of Num n \<Rightarrow> n | Undefined \<Rightarrow> 0 | Null \<Rightarrow> 0)" for s
    by (cases s) simp_all
  then have "foldl (\<lambda>acc c. acc + or_zero (score c)) 0 comments =
      sum_list (map (\<lambda>c. case score c of Num n \<Rightarrow> n | Undefined \<Rightarrow> 0 | Null \<Rightarrow> 0) comments)"
    by (simp add: foldl_add_sum_list)
  then show ?thesis
    by (simp add: newStats_def Let_def)
qed

text \<open>The scenario of the specification: scores 5 and -1 under a post of score 10.\<close>

theorem newStats_formulas_witness:
  "newStats example_post (walkComments example_thread 0 []) =
     \<lparr>postScore = 10, totalComments = 2, totalCommentScore = 4,
      avgCommentScore = 2, commentsPerScorePoint = 1 / 2\<rparr>"
  using newStats_formulas[of example_post "walkComments example_thread 0 []"]
  by (simp add: example_thread_def example_raw_def example_post_def push_item_def)

text \<open>
  C1 as stated fails where the total is negative: one comment of score -1 gives total
  -1, which is not zero, and comments per score point 0, not 1 / -1.
\<close>

theorem newStats_negative_total_counterexample:
  "totalCommentScore (newStats example_post (walkComments downvoted_thread 0 [])) \<noteq> 0
   \<and> commentsPerScorePoint (newStats example_post (walkComments downvoted_thread 0 [])) = 0
   \<and> commentsPerScorePoint (newStats example_post (walkComments downvoted_thread 0 [])) \<noteq>
       real (totalComments (newStats example_post (walkComments downvoted_thread 0 [])))
       / real_of_int (totalCommentScore (newStats example_post (walkComments downvoted_thread 0 [])))"
  by (simp add: newStats_def downvoted_thread_def example_raw_def push_item_def)

section \<open>The identifier normalizer\<close>

lemma split_on_not_Nil: "split_on sep s \<noteq> []"
  by (induction s) (auto split: list.splits)

lemma join_split_on: "join_with sep (split_on sep s) = s"
proof (induction s)
  case Nil
  show ?case by simp
next
  case (Cons c cs)
  obtain p ps where ps: "split_on sep cs = p # ps"
    using split_on_not_Nil[of sep cs] by (cases "split_on sep cs") auto
  show ?case
  proof (cases "c = sep")
    case True
    with Cons ps show ?thesis by simp
  next
    case False
    with Cons ps show ?thesis by (cases ps) auto
  qed
qed

lemma split_on_no_sep: "p \<in> set (split_on sep s) \<Longrightarrow> sep \<notin> set p"
proof (induction s arbitrary: p)
  case Nil
  then show ?case by simp
next
  case (Cons c cs)
  obtain q qs where qs: "split_on sep cs = q # qs"
    using split_on_not_Nil[of sep cs] by (cases "split_on sep cs") auto
  have q: "sep \<notin> set q" and rest: "\<And>r. r \<in> set qs \<Longrightarrow> sep \<notin> set r"
    using Cons.IH qs by auto
  show ?case
    using Cons.prems qs q rest by (auto split: if_splits)
qed

lemma indexOf_ge: "- 1 \<le> indexOf xs x"
  by (induction xs) (auto simp: Let_def)

lemma indexOf_minus_one: "indexOf xs x = - 1 \<longleftrightarrow> x \<notin> set xs"
proof (induction xs)
  case Nil
  show ?case by simp
next
  case (Cons y ys)
  have "- 1 \<le> indexOf ys x" by (rule indexOf_ge)
  with Cons show ?case by (auto simp: Let_def)
qed

lemma first_occurrence_unique:
  "pre @ k # post = pre' @ k # post' \<Longrightarrow> k \<notin> set pre \<Longrightarrow> k \<notin> set pre' \<Longrightarrow>
     pre = pre' \<and> post = post'"
proof (induction pre arbitrary: pre')
  case Nil
  then show ?case by (cases pre') auto
next
  case (Cons a pre)
  then show ?case by (cases pre') auto
qed

lemma indexOf_first: "x \<notin> set pre \<Longrightarrow> indexOf (pre @ x # post) x = int (length pre)"
proof (induction pre)
  case Nil
  show ?case by simp
next
  case (Cons y ys)
  then show ?case by (auto simp: Let_def)
qed

lemma at_index_after: "at_index (pre @ x # post) (int (length pre) + 1) =
    (case post of [] \<Rightarrow> None | s # rest \<Rightarrow> Some s)"
proof -
  have "nat (int (length pre) + 1) = Suc (length pre)" by simp
  then show ?thesis
    by (cases post) (simp_all add: at_index_def nth_append)
qed

text \<open>What the URL branch computes from the path segments (lines 33-35).\<close>

lemma url_branch_cases:
  fixes parts :: "jstring list"
  assumes nonempty: "[] \<notin> set parts"
  defines "idx \<equiv> indexOf parts (js ''comments'')"
  defines "res \<equiv> (if idx = - 1 \<or> \<not> truthy (at_index parts (idx + 1)) then None
                    else at_index parts (idx + 1))"
  shows "(res = Some seg \<longleftrightarrow>
            (\<exists>pre post. parts = pre @ js ''comments'' # seg # post \<and> js ''comments'' \<notin> set pre))"
    and "(res = None \<longleftrightarrow>
            (js ''comments'' \<notin> set parts
             \<or> (\<exists>pre. parts = pre @ [js ''comments''] \<and> js ''comments'' \<notin> set pre)))"
proof -
  let ?k = "js ''comments''"
  have split_first: "\<exists>pre post. parts = pre @ ?k # post \<and> ?k \<notin> set pre" if "?k \<in> set parts"
    using that by (meson split_list_first)
  note uniq = first_occurrence_unique
  show "(res = Some seg \<longleftrightarrow>
            (\<exists>pre post. parts = pre @ ?k # seg # post \<and> ?k \<notin> set pre))"
  proof (cases "?k \<in> set parts")
    case False
    then have "idx = - 1" by (simp add: idx_def indexOf_minus_one)
    with False show ?thesis by (auto simp: res_def)
  next
    case True
    then obtain pre post where p: "parts = pre @ ?k # post" "?k \<notin> set pre"
      using split_first by blast
    then have idx: "idx = int (length pre)" by (simp add: idx_def indexOf_first)
    show ?thesis
    proof (cases post)
      case Nil
      then have "res = None" using p idx by (simp add: res_def at_index_after)
      moreover have "\<not> (\<exists>pre' post'. parts = pre' @ ?k # seg # post' \<and> ?k \<notin> set pre')"
      proof
        assume "\<exists>pre' post'. parts = pre' @ ?k # seg # post' \<and> ?k \<notin> set pre'"
        then obtain pre' post' where q: "parts = pre' @ ?k # seg # post'" "?k \<notin> set pre'"
          by blast
        from uniq[of pre ?k post pre' "seg # post'"] p q Nil show False by simp
      qed
      ultimately show ?thesis by simp
    next
      case (Cons s rest)
      have "s \<noteq> []" using nonempty p Cons by auto
      then have "res = Some s" using p idx Cons by (simp add: res_def at_index_after)
      moreover have "(\<exists>pre' post'. parts = pre' @ ?k # seg # post' \<and> ?k \<notin> set pre') \<longleftrightarrow> seg = s"
      proof
        assume "\<exists>pre' post'. parts = pre' @ ?k # seg # post' \<and> ?k \<notin> set pre'"
        then obtain pre' post' where q: "parts = pre' @ ?k # seg # post'" "?k \<notin> set pre'"
          by blast
        from uniq[of pre ?k post pre' "seg # post'"] p q Cons show "seg = s" by simp
      next
        assume "seg = s"
        with p Cons show "\<exists>pre' post'. parts = pre' @ ?k # seg # post' \<and> ?k \<notin> set pre'"
          by blast
      qed
      ultimately show ?thesis by auto
    qed
  qed
  show "(res = None \<longleftrightarrow>
            (?k \<notin> set parts \<or> (\<exists>pre. parts = pre @ [?k] \<and> ?k \<notin> set pre)))"
  proof (cases "?k \<in> set parts")
    case False
    then have "idx = - 1" by (simp add: idx_def indexOf_minus_one)
    with False show ?thesis by (auto simp: res_def)
  next
    case True
    then obtain pre post where p: "parts = pre @ ?k # post" "?k \<notin> set pre"
      using split_first by blast
    then have idx: "idx = int (length pre)" by (simp add: idx_def indexOf_first)
    show ?thesis
    proof (cases post)
      case Nil
      then have "res = None" using p idx by (simp add: res_def at_index_after)
      then show ?thesis using p Nil by auto
    next
      case (Cons s rest)
      have "s \<noteq> []" using nonempty p Cons by auto
      then have "res = Some s" using p idx Cons by (simp add: res_def at_index_after)
      moreover have "\<not> (\<exists>pre'. parts = pre' @ [?k] \<and> ?k \<notin> set pre')"
      proof
        assume "\<exists>pre'. parts = pre' @ [?k] \<and> ?k \<notin> set pre'"
        then obtain pre' where q: "parts = pre' @ [?k]" "?k \<notin> set pre'"
          by blast
        from uniq[of pre ?k post pre' "[]"] p q Cons show False by simp
      qed
      ultimately show ?thesis using True by simp
    qed
  qed
qed

text \<open>
  C2, as the code has it. A trimmed input without \<open>/\<close> and without the space character
  U+0020 is returned as it is, trimmed; so is, in particular, one without \<open>/\<close> and
  without any whitespace. Otherwise the input goes to the URL parser, and the result is
  \<open>null\<close> when the parser fails.
\<close>

theorem normalizeToPostId_bare_or_url:
  "(\<not> includes_char (trim raw) slash \<and> \<not> includes_char (trim raw) space
      \<longrightarrow> normalizeToPostId url_pathname raw = Some (trim raw))
   \<and> (\<not> includes_char (trim raw) slash \<and> (\<forall>c \<in> set (trim raw). \<not> is_ws c)
      \<longrightarrow> normalizeToPostId url_pathname raw = Some (trim raw))
   \<and> ((includes_char (trim raw) slash \<or> includes_char (trim raw) space)
       \<and> url_pathname (trim raw) = None
      \<longrightarrow> normalizeToPostId url_pathname raw = None)"
proof -
  have "is_ws space" by (simp add: is_ws_def)
  then have "\<not> includes_char (trim raw) space" if "\<forall>c \<in> set (trim raw). \<not> is_ws c"
    using that by (auto simp: includes_char_def)
  then show ?thesis
    by (auto simp: normalizeToPostId_def Let_def)
qed

theorem normalizeToPostId_bare_or_url_witness:
  "\<not> includes_char (trim (js ''  abc123 '')) slash
   \<and> \<not> includes_char (trim (js ''  abc123 '')) space
   \<and> normalizeToPostId failing_url_parser (js ''  abc123 '') = Some (js ''abc123'')
   \<and> includes_char (trim (js ''not a url'')) space
   \<and> normalizeToPostId failing_url_parser (js ''not a url'') = None"
proof -
  have t1: "trim (js ''  abc123 '') = js ''abc123''"
    by (simp add: trim_def js_def is_ws_def)
  have t2: "trim (js ''not a url'') = js ''not a url''"
    by (simp add: trim_def js_def is_ws_def)
  have h1: "\<not> includes_char (trim (js ''  abc123 '')) slash
      \<and> \<not> includes_char (trim (js ''  abc123 '')) space"
    unfolding t1 by (simp add: includes_char_def js_def)
  have h2: "includes_char (trim (js ''not a url'')) space"
    unfolding t2 by (simp add: includes_char_def js_def)
  from normalizeToPostId_bare_or_url[of "js ''  abc123 ''" failing_url_parser] h1
  have "normalizeToPostId failing_url_parser (js ''  abc123 '') = Some (js ''abc123'')"
    unfolding t1 by blast
  moreover from normalizeToPostId_bare_or_url[of "js ''not a url''" failing_url_parser] h2
  have "normalizeToPostId failing_url_parser (js ''not a url'') = None"
    by (simp add: failing_url_parser_def)
  ultimately show ?thesis
    using h1 h2 by blast
qed

text \<open>
  C2 as stated fails on whitespace other than U+0020 inside the input: \<open>a<TAB>b\<close>
  contains a whitespace character, the URL parser fails on it, and the result is the
  input itself, not \<open>null\<close>.
\<close>

theorem normalizeToPostId_tab_counterexample:
  "is_ws 0x09
   \<and> includes_char (trim [0x61, 0x09, 0x62]) 0x09
   \<and> failing_url_parser (trim [0x61, 0x09, 0x62]) = None
   \<and> normalizeToPostId failing_url_parser [0x61, 0x09, 0x62] = Some [0x61, 0x09, 0x62]"
  by (simp add: normalizeToPostId_def trim_def is_ws_def includes_char_def
      failing_url_parser_def)

text \<open>
  C6, as the code has it. For an input that reaches the URL branch (its trimmed form
  contains \<open>/\<close> or a space) and parses, with \<open>parts\<close> the non-empty segments of the path
  between slashes: the result is the segment right after the first segment equal to
  \<open>comments\<close>, which is not empty; and it is \<open>null\<close> exactly when no segment is
  \<open>comments\<close> or the first one that is, is the last segment.
\<close>

theorem normalizeToPostId_url_segment:
  assumes "includes_char (trim raw) slash \<or> includes_char (trim raw) space"
    and "url_pathname (trim raw) = Some pathname"
  shows "(normalizeToPostId url_pathname raw = Some seg \<longleftrightarrow>
            (\<exists>pre post. filter (\<lambda>p. p \<noteq> []) (split_on slash pathname)
                           = pre @ js ''comments'' # seg # post
                         \<and> js ''comments'' \<notin> set pre))
         \<and> (normalizeToPostId url_pathname raw = None \<longleftrightarrow>
              (js ''comments'' \<notin> set (filter (\<lambda>p. p \<noteq> []) (split_on slash pathname))
               \<or> (\<exists>pre. filter (\<lambda>p. p \<noteq> []) (split_on slash pathname) = pre @ [js ''comments'']
                        \<and> js ''comments'' \<notin> set pre)))
         \<and> normalizeToPostId url_pathname raw \<noteq> Some []
         \<and> join_with slash (split_on slash pathname) = pathname"
proof -
  let ?parts = "filter (\<lambda>p. p \<noteq> []) (split_on slash pathname)"
  let ?idx = "indexOf ?parts (js ''comments'')"
  have ne: "[] \<notin> set ?parts" by simp
  have res: "normalizeToPostId url_pathname raw =
      (if ?idx = - 1 \<or> \<not> truthy (at_index ?parts (?idx + 1)) then None
       else at_index ?parts (?idx + 1))"
    using assms by (auto simp: normalizeToPostId_def Let_def)
  have "normalizeToPostId url_pathname raw \<noteq> Some []"
    unfolding res by (cases "at_index ?parts (?idx + 1)") auto
  then show ?thesis
    unfolding res using url_branch_cases[OF ne] join_split_on by blast
qed

theorem normalizeToPostId_url_segment_witness:
  "includes_char (trim (js ''https://example.com/r/test/comments/abc123/title_slug/'')) slash
   \<and> example_url_pathname (trim (js ''https://example.com/r/test/comments/abc123/title_slug/''))
       = Some (js ''/r/test/comments/abc123/title_slug/'')
   \<and> filter (\<lambda>p. p \<noteq> []) (split_on slash (js ''/r/test/comments/abc123/title_slug/''))
       = [js ''r'', js ''test'', js ''comments'', js ''abc123'', js ''title_slug'']
   \<and> normalizeToPostId example_url_pathname
         (js ''https://example.com/r/test/comments/abc123/title_slug/'') = Some (js ''abc123'')"
proof -
  let ?u = "js ''https://example.com/r/test/comments/abc123/title_slug/''"
  let ?p = "js ''/r/test/comments/abc123/title_slug/''"
  have t: "trim ?u = ?u"
    by (simp add: trim_def js_def is_ws_def)
  have h1: "includes_char (trim ?u) slash \<or> includes_char (trim ?u) space"
    unfolding t by (simp add: includes_char_def js_def)
  have h2: "example_url_pathname (trim ?u) = Some ?p"
    unfolding t by (simp add: example_url_pathname_def)
  have parts: "filter (\<lambda>p. p \<noteq> []) (split_on slash ?p)
      = [js ''r'', js ''test'', js ''comments'', js ''abc123'', js ''title_slug'']"
    by (simp add: js_def)
  have "filter (\<lambda>p. p \<noteq> []) (split_on slash ?p)
      = [js ''r'', js ''test''] @ js ''comments'' # js ''abc123'' # [js ''title_slug'']
      \<and> js ''comments'' \<notin> set [js ''r'', js ''test'']"
    unfolding parts by (simp add: js_def)
  then have "normalizeToPostId example_url_pathname ?u = Some (js ''abc123'')"
    using normalizeToPostId_url_segment[where raw = ?u and url_pathname = example_url_pathname
        and pathname = ?p and seg = "js ''abc123''", OF h1 h2] by blast
  then show ?thesis
    using h1 h2 parts t by (simp add: includes_char_def js_def)
qed

text \<open>
  C6 as stated fails on an absolute URL without \<open>/\<close> and without a space, which never
  reaches the URL branch: \<open>mailto:x\<close> parses, its path \<open>x\<close> has no \<open>comments\<close> segment, and
  the result is the whole input, not \<open>null\<close>.
\<close>

theorem normalizeToPostId_mailto_counterexample:
  "example_url_pathname (trim (js ''mailto:x'')) = Some (js ''x'')
   \<and> split_on slash (js ''x'') = [js ''x'']
   \<and> js ''x'' \<noteq> js ''comments''
   \<and> normalizeToPostId example_url_pathname (js ''mailto:x'') = Some (js ''mailto:x'')"
  by (simp add: normalizeToPostId_def trim_def is_ws_def includes_char_def
      example_url_pathname_def js_def)


section \<open>The sort step and the orchestrator\<close>

lemma mset_insert_by: "mset (insert_by cmp x xs) = add_mset x (mset xs)"
  by (induction xs) simp_all

lemma mset_array_sort: "mset (array_sort cmp xs) = mset xs"
  unfolding array_sort_def by (induction xs) (simp_all add: mset_insert_by)

lemma set_insert_by: "set (insert_by cmp x xs) = insert x (set xs)"
  using mset_insert_by[of cmp x xs] by (metis set_mset_add_mset_insert set_mset_mset)

lemma by_score_Num:
  "score a = Num m \<Longrightarrow> score b = Num n \<Longrightarrow> by_score a b = n - m"
  by (simp add: by_score_def)

lemma sorted_insert_by:
  assumes "sorted_wrt (\<lambda>a b. or_zero (score b) \<le> or_zero (score a)) ys"
    and "\<exists>n. score x = Num n"
    and "\<forall>y \<in> set ys. \<exists>n. score y = Num n"
  shows "sorted_wrt (\<lambda>a b. or_zero (score b) \<le> or_zero (score a)) (insert_by by_score x ys)"
  using assms
proof (induction ys)
  case Nil
  then show ?case by simp
next
  case (Cons y ys)
  obtain m n where mn: "score x = Num m" "score y = Num n"
    using Cons.prems by auto
  show ?case
  proof (cases "by_score x y \<le> 0")
    case True
    then have "n \<le> m" using mn by (simp add: by_score_Num)
    then have "\<forall>z \<in> set (y # ys). or_zero (score z) \<le> or_zero (score x)"
      using Cons.prems(1) mn by fastforce
    then show ?thesis using True Cons.prems(1) by simp
  next
    case False
    then have "m \<le> n" using mn by (simp add: by_score_Num)
    moreover have "sorted_wrt (\<lambda>a b. or_zero (score b) \<le> or_zero (score a)) (insert_by by_score x ys)"
      using Cons by simp
    ultimately show ?thesis
      using False Cons.prems(1) mn by (simp add: set_insert_by)
  qed
qed

lemma sorted_array_sort:
  assumes "\<forall>c \<in> set comments. \<exists>n. score c = Num n"
  shows "sorted_wrt (\<lambda>a b. or_zero (score b) \<le> or_zero (score a)) (array_sort by_score comments)"
  using assms
proof (induction comments)
  case Nil
  show ?case by (simp add: array_sort_def)
next
  case (Cons c cs)
  have "set (array_sort by_score cs) = set cs"
    using mset_array_sort[of by_score cs] by (metis set_mset_mset)
  then show ?case
    using Cons sorted_insert_by[of "array_sort by_score cs" c]
    by (simp add: array_sort_def)
qed

lemma fetchThread_success:
  assumes "normalizeToPostId url_pathname raw = Some postId" and "postId \<noteq> []"
    and "fetch (js ''https://www.reddit.com/comments/'' @ postId @ js ''.json?raw_json=1'')
           = Status_ok (Some data)"
  shows "outputs (fetchThread url_pathname fetch stringify raw st) =
           \<lparr>txt_out = render_llm (payload_post data) (sorted_comments (payload_comments data)),
            toon_out = render_toon (payload_post data) (sorted_comments (payload_comments data)),
            json_out = stringify
              (jsonObj (payload_post data)
                 (newStats (payload_post data) (sorted_comments (payload_comments data)))
                 (sorted_comments (payload_comments data)))\<rparr>"
    and "stats (fetchThread url_pathname fetch stringify raw st) =
           Some (newStats (payload_post data) (sorted_comments (payload_comments data)))"
  using assms by (simp_all add: fetchThread_def Let_def)

text \<open>
  C9. When every record of a flattened sequence carries an integer score, the sort step
  gives the same records with the scores in non-increasing order. The sort runs once, on
  the flattened thread, and a successful \<open>fetchThread\<close> hands that one sorted sequence to
  the statistics and to the three renderers. Two top-level comments with scores 5 and -1
  come out with the score-5 comment first, in whichever order they arrived.
\<close>

theorem sort_step_descending:
  assumes "\<forall>c \<in> set comments. \<exists>n. score c = Num n"
  shows "sorted_wrt (\<lambda>a b. or_zero (score b) \<le> or_zero (score a)) (array_sort by_score comments)
     \<and> mset (array_sort by_score comments) = mset comments
     \<and> sorted_comments commentsRaw = array_sort by_score (walkComments commentsRaw 0 [])
     \<and> (normalizeToPostId url_pathname raw = Some postId \<and> postId \<noteq> []
          \<and> fetch (js ''https://www.reddit.com/comments/'' @ postId @ js ''.json?raw_json=1'')
              = Status_ok (Some data)
        \<longrightarrow> outputs (fetchThread url_pathname fetch stringify raw st) =
              \<lparr>txt_out = render_llm (payload_post data) (sorted_comments (payload_comments data)),
               toon_out = render_toon (payload_post data) (sorted_comments (payload_comments data)),
               json_out = stringify
                 (jsonObj (payload_post data)
                    (newStats (payload_post data) (sorted_comments (payload_comments data)))
                    (sorted_comments (payload_comments data)))\<rparr>)
     \<and> map score (sorted_comments [T1 (c1\<lparr>raw_score := Num 5\<rparr>) None,
                                    T1 (c2\<lparr>raw_score := Num (- 1)\<rparr>) None])
         = [Num 5, Num (- 1)]
     \<and> map score (sorted_comments [T1 (c2\<lparr>raw_score := Num (- 1)\<rparr>) None,
                                    T1 (c1\<lparr>raw_score := Num 5\<rparr>) None])
         = [Num 5, Num (- 1)]"
proof -
  have two: "map score (sorted_comments [T1 (c1\<lparr>raw_score := Num 5\<rparr>) None,
                                    T1 (c2\<lparr>raw_score := Num (- 1)\<rparr>) None])
         = [Num 5, Num (- 1)]"
    by (simp add: sorted_comments_def array_sort_def by_score_def push_item_def)
  have two': "map score (sorted_comments [T1 (c2\<lparr>raw_score := Num (- 1)\<rparr>) None,
                                    T1 (c1\<lparr>raw_score := Num 5\<rparr>) None])
         = [Num 5, Num (- 1)]"
    by (simp add: sorted_comments_def array_sort_def by_score_def push_item_def)
  show ?thesis
    using sorted_array_sort[OF assms] mset_array_sort[of by_score comments]
      fetchThread_success(1)[of url_pathname raw postId fetch data stringify st] two two'
    by (simp add: sorted_comments_def)
qed

theorem sort_step_descending_witness:
  "map score (walkComments example_thread 0 []) = [Num (- 1), Num 5]
   \<and> sorted_wrt (\<lambda>a b. or_zero (score b) \<le> or_zero (score a))
       (array_sort by_score (walkComments example_thread 0 []))
   \<and> map comment_id (sorted_comments example_thread) = [js ''c2'', js ''c1'']"
proof -
  have w: "map score (walkComments example_thread 0 []) = [Num (- 1), Num 5]"
    by (simp add: example_thread_def example_raw_def push_item_def)
  have h: "\<forall>c \<in> set (walkComments example_thread 0 []). \<exists>n. score c = Num n"
    by (simp add: example_thread_def example_raw_def push_item_def)
  have ids: "map comment_id (sorted_comments example_thread) = [js ''c2'', js ''c1'']"
    by (simp add: sorted_comments_def array_sort_def by_score_def example_thread_def
        example_raw_def push_item_def)
  from sort_step_descending[OF h] w ids show ?thesis by blast
qed




section \<open>The text renderers\<close>

lemma foldl_append_concat:
  "foldl (\<lambda>acc c. acc @ f c) a xs = a @ concat (map f xs)"
  by (induction xs arbitrary: a) simp_all

lemma formatCommentLLM_block: "formatCommentLLM c = llm_block c"
  by (simp add: formatCommentLLM_def llm_block_def Let_def js_def)

lemma llm_assembled_sections:
  "llm_assembled post comments =
     header_block post @ llm_body_section post @ js ''COMMENTS:'' @ [nl] @ llm_legend
     @ concat (map llm_block comments)"
proof -
  have "formatCommentLLM = llm_block"
    by (rule ext) (rule formatCommentLLM_block)
  then show ?thesis
    by (simp add: llm_assembled_def Let_def foldl_append_concat header_block_def
        llm_body_section_def body_or_sentinel_def llm_legend_def)
qed

lemma replace_runs_nl_Cons:
  "replace_runs (\<lambda>c. c = nl) 2 [nl] (c # cs) =
     (if c = nl then nl # replace_runs (\<lambda>c. c = nl) 2 [nl] (dropWhile (\<lambda>c. c = nl) cs)
      else c # replace_runs (\<lambda>c. c = nl) 2 [nl] cs)"
  by (cases cs) (auto simp: Let_def)

lemma squeeze_nl_Cons:
  "squeeze_nl (c # cs) =
     (if c = nl then nl # squeeze_nl (dropWhile (\<lambda>c. c = nl) cs) else c # squeeze_nl cs)"
proof (induction cs arbitrary: c)
  case Nil
  show ?case by simp
next
  case (Cons b cs)
  show ?case using Cons[of b] by auto
qed

lemma replace_runs_nl_squeeze:
  "replace_runs (\<lambda>c. c = nl) 2 [nl] s = squeeze_nl s"
proof (induction "length s" arbitrary: s rule: less_induct)
  case less
  show ?case
  proof (cases s)
    case Nil
    then show ?thesis by simp
  next
    case (Cons c cs)
    have "length (dropWhile (\<lambda>c. c = nl) cs) < length s"
      using Cons length_dropWhile_le[of "\<lambda>c. c = nl" cs] by simp
    then have 1: "replace_runs (\<lambda>c. c = nl) 2 [nl] (dropWhile (\<lambda>c. c = nl) cs)
         = squeeze_nl (dropWhile (\<lambda>c. c = nl) cs)"
      using less by blast
    have 2: "replace_runs (\<lambda>c. c = nl) 2 [nl] cs = squeeze_nl cs"
      using less Cons by simp
    show ?thesis
      unfolding Cons replace_runs_nl_Cons squeeze_nl_Cons using 1 2 by simp
  qed
qed

lemma squeeze_nl_head: "\<exists>t. squeeze_nl (a # cs) = a # t"
  by (induction cs arbitrary: a) auto

lemma squeeze_nl_no_double: "\<not> has_double_nl (squeeze_nl s)"
proof (induction s rule: squeeze_nl.induct)
  case (1 a b cs)
  obtain t where t: "squeeze_nl (b # cs) = b # t"
    using squeeze_nl_head by blast
  show ?case using 1 t by auto
qed simp_all

lemma has_double_nl_index:
  "has_double_nl s \<longleftrightarrow> (\<exists>i. Suc i < length s \<and> s ! i = nl \<and> s ! Suc i = nl)"
proof (induction s rule: has_double_nl.induct)
  case (1 a b cs)
  have "(\<exists>i. Suc i < length (a # b # cs) \<and> (a # b # cs) ! i = nl \<and> (a # b # cs) ! Suc i = nl)
     \<longleftrightarrow> (a = nl \<and> b = nl) \<or> (\<exists>j. Suc j < length (b # cs) \<and> (b # cs) ! j = nl \<and> (b # cs) ! Suc j = nl)"
    (is "?L \<longleftrightarrow> ?A \<or> ?R")
  proof
    assume ?L
    then obtain i where i: "Suc i < length (a # b # cs)" "(a # b # cs) ! i = nl"
      "(a # b # cs) ! Suc i = nl" by blast
    show "?A \<or> ?R"
    proof (cases i)
      case 0
      with i show ?thesis by simp
    next
      case (Suc j)
      with i have "Suc j < length (b # cs) \<and> (b # cs) ! j = nl \<and> (b # cs) ! Suc j = nl" by simp
      then show ?thesis by blast
    qed
  next
    assume "?A \<or> ?R"
    then show ?L
    proof
      assume ?A
      then have "Suc 0 < length (a # b # cs) \<and> (a # b # cs) ! 0 = nl \<and> (a # b # cs) ! Suc 0 = nl"
        by simp
      then show ?L by blast
    next
      assume ?R
      then obtain j where "Suc j < length (b # cs) \<and> (b # cs) ! j = nl \<and> (b # cs) ! Suc j = nl"
        by blast
      then have "Suc (Suc j) < length (a # b # cs) \<and> (a # b # cs) ! Suc j = nl
          \<and> (a # b # cs) ! Suc (Suc j) = nl" by simp
      then show ?L by blast
    qed
  qed
  with 1 show ?case by simp
qed simp_all

text \<open>
  C3, as the code has it. Before the newline pass, the LLM text is exactly: the header
  lines \<open>TITLE:\<close>, \<open>SUBREDDIT: r/\<close> and \<open>POST_AUTHOR:\<close>; the \<open>POST_BODY:\<close> section with
  the trimmed self-text or \<open>(no body)\<close>; the \<open>COMMENTS:\<close> heading; a fixed legend of two
  lines; and then one block per comment, the depth label \<open>[d<N>]\<close> and the author on a
  line followed by the trimmed body, a comment with an empty trimmed body giving the
  empty string.
\<close>

theorem llm_text_layout:
  "llm_assembled post comments =
     header_block post @ llm_body_section post @ js ''COMMENTS:'' @ [nl] @ llm_legend
     @ concat (map llm_block comments)
   \<and> formatCommentLLM c = llm_block c
   \<and> llm_legend \<noteq> []"
  using llm_assembled_sections[of post comments] formatCommentLLM_block[of c]
  by (simp add: llm_legend_def js_def)

text \<open>The example post with one comment at depth 1 and one comment without text.\<close>

theorem llm_text_layout_witness:
  "llm_assembled example_post
      [example_comment 5 (js '' first! '') 1, example_comment 2 (js ''  '') 0] =
     js ''TITLE: Hello'' @ [nl] @ js ''SUBREDDIT: r/test'' @ [nl]
     @ js ''POST_AUTHOR: u/alice'' @ [nl, nl]
     @ js ''POST_BODY:'' @ [nl] @ js ''(no body)'' @ [nl, nl]
     @ js ''COMMENTS:'' @ [nl]
     @ js ''# [dX] u/author'' @ [nl] @ js ''# comment text'' @ [nl, nl]
     @ js ''[d1] u/bob'' @ [nl] @ js ''first!'' @ [nl, nl]"
  using llm_text_layout[of example_post
      "[example_comment 5 (js '' first! '') 1, example_comment 2 (js ''  '') 0]"]
  by (simp add: header_block_def llm_body_section_def body_or_sentinel_def llm_legend_def
      llm_block_def example_comment_def example_raw_def example_post_def push_item_def
      postAuthor_def post_body_def trim_def is_ws_def js_def number_to_string.simps)

text \<open>
  C3 as stated fails on the legend: with no comments at all, the text does not end at
  the \<open>COMMENTS:\<close> heading.
\<close>

theorem llm_text_legend_counterexample:
  "llm_assembled example_post [] \<noteq> claimed_llm_text example_post []"
  by (simp add: llm_assembled_sections claimed_llm_text_def llm_legend_def js_def)

text \<open>
  C7. The final LLM text is the assembled text with every newline that follows a newline
  removed, in one pass over the whole text; no two newline characters stand side by
  side in it, whatever the post and the comments hold.
\<close>

theorem render_llm_no_double_newline:
  "render_llm post comments = squeeze_nl (llm_assembled post comments)
   \<and> \<not> has_double_nl (render_llm post comments)
   \<and> \<not> (\<exists>i. Suc i < length (render_llm post comments)
            \<and> render_llm post comments ! i = nl \<and> render_llm post comments ! Suc i = nl)"
proof -
  have eq: "render_llm post comments = squeeze_nl (llm_assembled post comments)"
    by (simp add: render_llm_def replace_runs_nl_squeeze)
  have "\<not> has_double_nl (render_llm post comments)"
    unfolding eq by (rule squeeze_nl_no_double)
  then show ?thesis
    using eq has_double_nl_index[of "render_llm post comments"] by blast
qed

text \<open>The final LLM text of the example: blank lines are gone, between comments too.\<close>

theorem render_llm_no_double_newline_witness:
  "render_llm example_post
      [example_comment 5 ([0x61, nl, nl, nl, nl, 0x62]) 0, example_comment 2 (js ''ok'') 1] =
     js ''TITLE: Hello'' @ [nl] @ js ''SUBREDDIT: r/test'' @ [nl]
     @ js ''POST_AUTHOR: u/alice'' @ [nl]
     @ js ''POST_BODY:'' @ [nl] @ js ''(no body)'' @ [nl]
     @ js ''COMMENTS:'' @ [nl]
     @ js ''# [dX] u/author'' @ [nl] @ js ''# comment text'' @ [nl]
     @ js ''[d0] u/bob'' @ [nl] @ [0x61, nl, 0x62, nl]
     @ js ''[d1] u/bob'' @ [nl] @ js ''ok'' @ [nl]"
proof -
  have "render_llm example_post
      [example_comment 5 ([0x61, nl, nl, nl, nl, 0x62]) 0, example_comment 2 (js ''ok'') 1]
    = squeeze_nl (llm_assembled example_post
      [example_comment 5 ([0x61, nl, nl, nl, nl, 0x62]) 0, example_comment 2 (js ''ok'') 1])"
    using render_llm_no_double_newline[of example_post
      "[example_comment 5 ([0x61, nl, nl, nl, nl, 0x62]) 0, example_comment 2 (js ''ok'') 1]"]
    by blast
  then show ?thesis
    by (simp add: llm_assembled_sections header_block_def llm_body_section_def
        body_or_sentinel_def llm_legend_def llm_block_def example_comment_def example_raw_def
        example_post_def push_item_def postAuthor_def post_body_def trim_def is_ws_def js_def number_to_string.simps)
qed

section \<open>The compact text\<close>

lemma dropWhile_Cons_not: "dropWhile P xs = y # ys \<Longrightarrow> \<not> P y"
  by (induction xs) (auto split: if_splits)

lemma replace_runs_ws_Cons:
  "replace_runs is_ws 1 [space] (c # cs) =
     (if is_ws c then space # replace_runs is_ws 1 [space] (dropWhile is_ws cs)
      else c # replace_runs is_ws 1 [space] cs)"
  by (simp add: Let_def)

lemma replace_runs_ws_word:
  "replace_runs is_ws 1 [space] cs =
     takeWhile (\<lambda>x. \<not> is_ws x) cs
     @ replace_runs is_ws 1 [space] (dropWhile (\<lambda>x. \<not> is_ws x) cs)"
  by (induction cs) (simp_all add: Let_def)

lemma replace_runs_ws_all_ws:
  "(\<forall>x \<in> set (replace_runs is_ws 1 [space] s). is_ws x) \<longleftrightarrow> (\<forall>x \<in> set s. is_ws x)"
proof (induction "length s" arbitrary: s rule: less_induct)
  case less
  show ?case
  proof (cases s)
    case Nil
    then show ?thesis by simp
  next
    case (Cons c cs)
    have sp: "is_ws space" by (simp add: is_ws_def)
    show ?thesis
    proof (cases "is_ws c")
      case False
      then show ?thesis using Cons by (simp add: Let_def)
    next
      case True
      have "length (dropWhile is_ws cs) < length s"
        using Cons length_dropWhile_le[of is_ws cs] by simp
      then have IH: "(\<forall>x \<in> set (replace_runs is_ws 1 [space] (dropWhile is_ws cs)). is_ws x)
          \<longleftrightarrow> (\<forall>x \<in> set (dropWhile is_ws cs). is_ws x)"
        using less by blast
      have "(\<forall>x \<in> set (dropWhile is_ws cs). is_ws x) \<longleftrightarrow> (\<forall>x \<in> set cs. is_ws x)"
        by (induction cs) auto
      then show ?thesis
        using True Cons IH sp by (simp add: replace_runs_ws_Cons)
    qed
  qed
qed

lemma dropWhile_replace_runs_ws:
  "dropWhile is_ws (replace_runs is_ws 1 [space] s)
     = replace_runs is_ws 1 [space] (dropWhile is_ws s)"
proof (cases s)
  case Nil
  then show ?thesis by simp
next
  case (Cons c cs)
  have sp: "is_ws space" by (simp add: is_ws_def)
  have start: "dropWhile is_ws (replace_runs is_ws 1 [space] d) = replace_runs is_ws 1 [space] d"
    if "d = dropWhile is_ws cs" for d
  proof (cases d)
    case Nil
    then show ?thesis by simp
  next
    case (Cons e es)
    then have "dropWhile is_ws cs = e # es"
      using that by simp
    then have "\<not> is_ws e"
      by (rule dropWhile_Cons_not)
    then show ?thesis using Cons by (simp add: Let_def)
  qed
  show ?thesis
  proof (cases "is_ws c")
    case True
    then show ?thesis
      using Cons sp start[of "dropWhile is_ws cs"] by (simp add: replace_runs_ws_Cons)
  next
    case False
    then show ?thesis using Cons by (simp add: Let_def)
  qed
qed

lemma rtrim_all_ws:
  "rev (dropWhile is_ws (rev t)) = [] \<longleftrightarrow> (\<forall>x \<in> set t. is_ws x)"
  by (simp add: dropWhile_eq_Nil_conv)

lemma rtrim_append_ws:
  assumes "\<forall>x \<in> set b. is_ws x"
  shows "rev (dropWhile is_ws (rev (a @ b))) = rev (dropWhile is_ws (rev a))"
proof -
  have "dropWhile is_ws (rev b @ rev a) = dropWhile is_ws (rev a)"
    by (rule dropWhile_append2) (use assms in simp)
  then show ?thesis by simp
qed

lemma rtrim_append_words:
  assumes "\<not> (\<forall>x \<in> set b. is_ws x)"
  shows "rev (dropWhile is_ws (rev (a @ b))) = a @ rev (dropWhile is_ws (rev b))"
proof -
  obtain x where x: "x \<in> set (rev b)" "\<not> is_ws x"
    using assms by auto
  have "dropWhile is_ws (rev b @ rev a) = dropWhile is_ws (rev b) @ rev a"
    using x by (rule dropWhile_append1)
  then have "rev (dropWhile is_ws (rev b @ rev a)) = rev (dropWhile is_ws (rev b) @ rev a)"
    by (rule arg_cong)
  then show ?thesis by (simp only: rev_append rev_rev_ident)
qed

lemma rtrim_word: "\<forall>x \<in> set w. \<not> is_ws x \<Longrightarrow> rev (dropWhile is_ws (rev w)) = w"
proof (cases "rev w")
  case Nil
  then show ?thesis by simp
next
  case (Cons a as)
  assume "\<forall>x \<in> set w. \<not> is_ws x"
  moreover have "a \<in> set w" using Cons by (metis list.set_intros(1) set_rev)
  ultimately have "\<not> is_ws a" by blast
  then have "dropWhile is_ws (rev w) = rev w" using Cons by simp
  then show ?thesis by simp
qed

lemma ws_words_dropWhile: "ws_words (dropWhile is_ws s) = ws_words s"
  by (induction s) simp_all

lemma ws_words_Nil_iff: "ws_words s = [] \<longleftrightarrow> (\<forall>x \<in> set s. is_ws x)"
  by (induction s) auto

lemma ws_words_nonempty: "[] \<notin> set (ws_words s)"
  by (induction s rule: ws_words.induct) auto

lemma ws_words_no_ws: "w \<in> set (ws_words s) \<Longrightarrow> x \<in> set w \<Longrightarrow> \<not> is_ws x"
proof (induction s arbitrary: w rule: ws_words.induct)
  case 1
  then show ?case by simp
next
  case (2 c cs)
  show ?case
  proof (cases "is_ws c")
    case True
    then show ?thesis using 2 by simp
  next
    case False
    then have "w = c # takeWhile (\<lambda>x. \<not> is_ws x) cs
        \<or> w \<in> set (ws_words (dropWhile (\<lambda>x. \<not> is_ws x) cs))"
      using 2(3) by simp
    then show ?thesis
    proof
      assume "w = c # takeWhile (\<lambda>x. \<not> is_ws x) cs"
      then show ?thesis using False 2(4) by (auto dest: set_takeWhileD)
    next
      assume "w \<in> set (ws_words (dropWhile (\<lambda>x. \<not> is_ws x) cs))"
      then show ?thesis using 2(2)[OF False _ 2(4)] by blast
    qed
  qed
qed

text \<open>
  Collapsing the whitespace runs to one space and trimming leaves the words of the text
  with one space between them.
\<close>

lemma rtrim_collapsed_words:
  "rev (dropWhile is_ws (rev (replace_runs is_ws 1 [space] (dropWhile is_ws s))))
     = join_with space (ws_words s)"
proof (induction s rule: ws_words.induct)
  case 1
  show ?case by simp
next
  case (2 c cs)
  show ?case
  proof (cases "is_ws c")
    case True
    then show ?thesis using 2(1) by simp
  next
    case False
    let ?R = "replace_runs is_ws 1 [space]"
    let ?w = "c # takeWhile (\<lambda>x. \<not> is_ws x) cs"
    let ?rest = "dropWhile (\<lambda>x. \<not> is_ws x) cs"
    have w_nows: "\<forall>x \<in> set ?w. \<not> is_ws x"
      using False by (auto dest: set_takeWhileD)
    have R: "?R (dropWhile is_ws (c # cs)) = ?w @ ?R ?rest"
      using False replace_runs_ws_word[of cs] by (simp add: Let_def)
    have IH: "rev (dropWhile is_ws (rev (?R (dropWhile is_ws ?rest)))) = join_with space (ws_words ?rest)"
      using 2(2)[OF False] .
    have words: "ws_words (c # cs) = ?w # ws_words ?rest"
      using False by simp
    have trimmed_rest: "rev (dropWhile is_ws (rev (?R ?rest)))
        = (if ws_words ?rest = [] then [] else space # join_with space (ws_words ?rest))"
    proof (cases ?rest)
      case Nil
      have "ws_words [] = []" "replace_runs is_ws 1 [space] [] = []" by simp_all
      then show ?thesis unfolding Nil by simp
    next
      case (Cons r rs)
      then have r: "is_ws r"
        using dropWhile_Cons_not[of "\<lambda>x. \<not> is_ws x" cs r rs] by blast
      have d: "dropWhile is_ws ?rest = dropWhile is_ws rs"
        using Cons r by simp
      have Rrest: "?R ?rest = [space] @ ?R (dropWhile is_ws rs)"
        using Cons r by (simp add: replace_runs_ws_Cons)
      have "ws_words ?rest = ws_words (dropWhile is_ws ?rest)"
        by (rule ws_words_dropWhile[symmetric])
      also have "\<dots> = ws_words (dropWhile is_ws rs)"
        by (simp only: d)
      finally have e: "ws_words ?rest = ws_words (dropWhile is_ws rs)" .
      have allws: "(\<forall>x \<in> set (?R (dropWhile is_ws rs)). is_ws x) \<longleftrightarrow> ws_words ?rest = []"
        by (simp only: e ws_words_Nil_iff replace_runs_ws_all_ws)
      have sp: "is_ws space" by (simp add: is_ws_def)
      show ?thesis
      proof (cases "ws_words ?rest = []")
        case True
        then have "\<forall>x \<in> set (?R ?rest). is_ws x"
          using allws Rrest sp by simp
        then have z: "rev (dropWhile is_ws (rev (?R ?rest))) = []"
          by (rule rtrim_all_ws[THEN iffD2])
        have rhs: "(if ws_words ?rest = [] then [] else space # join_with space (ws_words ?rest)) = []"
          using True by (rule if_P)
        show ?thesis unfolding rhs by (rule z)
      next
        case False
        then have "\<not> (\<forall>x \<in> set (?R (dropWhile is_ws rs)). is_ws x)"
          using allws by simp
        then have "rev (dropWhile is_ws (rev ([space] @ ?R (dropWhile is_ws rs))))
            = [space] @ rev (dropWhile is_ws (rev (?R (dropWhile is_ws rs))))"
          by (rule rtrim_append_words)
        then show ?thesis
          using False IH d Rrest by simp
      qed
    qed
    show ?thesis
    proof (cases "ws_words ?rest = []")
      case True
      then have "rev (dropWhile is_ws (rev (?R ?rest))) = []"
        unfolding trimmed_rest by (rule if_P)
      then have "\<forall>x \<in> set (?R ?rest). is_ws x"
        by (rule rtrim_all_ws[THEN iffD1])
      then have "rev (dropWhile is_ws (rev (?w @ ?R ?rest))) = rev (dropWhile is_ws (rev ?w))"
        by (rule rtrim_append_ws)
      also have "\<dots> = ?w" using rtrim_word[OF w_nows] .
      finally show ?thesis
        unfolding R words using True by simp
    next
      case False
      then obtain q qs where q: "ws_words ?rest = q # qs"
        by (cases "ws_words ?rest") auto
      have tr: "rev (dropWhile is_ws (rev (?R ?rest))) = space # join_with space (ws_words ?rest)"
        unfolding trimmed_rest using False by (rule if_not_P)
      have "\<not> (\<forall>x \<in> set (?R ?rest). is_ws x)"
      proof
        assume "\<forall>x \<in> set (?R ?rest). is_ws x"
        then have "rev (dropWhile is_ws (rev (?R ?rest))) = []"
          by (rule rtrim_all_ws[THEN iffD2])
        with tr show False by simp
      qed
      then have "rev (dropWhile is_ws (rev (?w @ ?R ?rest)))
          = ?w @ rev (dropWhile is_ws (rev (?R ?rest)))"
        by (rule rtrim_append_words)
      also have "\<dots> = ?w @ space # join_with space (ws_words ?rest)"
        by (simp only: tr)
      finally show ?thesis
        unfolding R words q by simp
    qed
  qed
qed

lemma oneLineBody_words:
  "trim (replace_runs is_ws 1 [space] s) = join_with space (ws_words s)"
  unfolding trim_def dropWhile_replace_runs_ws by (rule rtrim_collapsed_words)

lemma join_with_Nil_iff: "[] \<notin> set ws \<Longrightarrow> join_with sep ws = [] \<longleftrightarrow> ws = []"
  by (induction sep ws rule: join_with.induct) auto

lemma concat_ws_words: "concat (ws_words s) = filter (\<lambda>x. \<not> is_ws x) s"
proof (induction s rule: ws_words.induct)
  case 1
  show ?case by simp
next
  case (2 c cs)
  show ?case
  proof (cases "is_ws c")
    case True
    then show ?thesis using 2(1) by simp
  next
    case False
    have "filter (\<lambda>x. \<not> is_ws x) cs =
        filter (\<lambda>x. \<not> is_ws x)
          (takeWhile (\<lambda>x. \<not> is_ws x) cs @ dropWhile (\<lambda>x. \<not> is_ws x) cs)"
      by (simp only: takeWhile_dropWhile_id)
    also have "\<dots> = takeWhile (\<lambda>x. \<not> is_ws x) cs
        @ filter (\<lambda>x. \<not> is_ws x) (dropWhile (\<lambda>x. \<not> is_ws x) cs)"
    proof -
      have "filter P (takeWhile P xs) = takeWhile P xs" for P :: "jschar \<Rightarrow> bool" and xs
        by (induction xs) simp_all
      then show ?thesis by (simp only: filter_append)
    qed
    finally show ?thesis
      using False 2(2)[OF False] by simp
  qed
qed

lemma formatCommentToon_line: "formatCommentToon c = toon_line c"
proof -
  have e: "join_with space (ws_words (body c)) = [] \<longleftrightarrow> ws_words (body c) = []"
    by (rule join_with_Nil_iff) (rule ws_words_nonempty)
  show ?thesis
    unfolding formatCommentToon_def toon_line_def Let_def oneLineBody_words e
    by (simp only: append_assoc)
qed

lemma toon_assembled_sections:
  "toon_assembled post comments =
     header_block post @ toon_body_section post @ js ''COMMENTS:'' @ [nl]
     @ concat (map toon_line comments)"
proof -
  have "formatCommentToon = toon_line"
    by (rule ext) (rule formatCommentToon_line)
  then show ?thesis
    by (simp add: toon_assembled_def Let_def foldl_append_concat header_block_def
        toon_body_section_def body_or_sentinel_def)
qed

text \<open>
  C4, as the code has it. The compact text starts with the same three header lines as
  the LLM text; its body section has label and body on one line (\<open>POST_BODY: \<close> and the
  trimmed self-text or \<open>(no body)\<close>), where the LLM text breaks the line after the
  label; then the \<open>COMMENTS:\<close> heading and one line per comment: depth label, middle
  dot, author, colon and the body with every whitespace run collapsed to one space and
  trimmed, which is the words of the body with one space between them. A body
  \<open>a\n\n\n\nb\<close> gives \<open>a b\<close>; a comment whose body has no words gives nothing.
\<close>

theorem toon_text_layout:
  "toon_assembled post comments =
     header_block post @ toon_body_section post @ js ''COMMENTS:'' @ [nl]
     @ concat (map toon_line comments)
   \<and> prefix (header_block post) (llm_assembled post comments)
   \<and> render_toon post comments = squeeze_nl (toon_assembled post comments)
   \<and> formatCommentToon c = toon_line c
   \<and> trim (replace_runs is_ws 1 [space] b) = join_with space (ws_words b)
   \<and> concat (ws_words b) = filter (\<lambda>x. \<not> is_ws x) b
   \<and> (\<forall>w \<in> set (ws_words b). w \<noteq> [] \<and> (\<forall>x \<in> set w. \<not> is_ws x))
   \<and> trim (replace_runs is_ws 1 [space] [0x61, nl, nl, nl, nl, 0x62]) = [0x61, space, 0x62]"
proof -
  have "prefix (header_block post) (llm_assembled post comments)"
    unfolding llm_assembled_sections by (rule prefixI) simp
  moreover have "render_toon post comments = squeeze_nl (toon_assembled post comments)"
    by (simp add: render_toon_def replace_runs_nl_squeeze)
  moreover have "\<forall>w \<in> set (ws_words b). w \<noteq> [] \<and> (\<forall>x \<in> set w. \<not> is_ws x)"
    using ws_words_nonempty[of b] ws_words_no_ws[of _ b] by metis
  moreover have "trim (replace_runs is_ws 1 [space] [0x61, nl, nl, nl, nl, 0x62])
      = [0x61, space, 0x62]"
    by (simp add: trim_def is_ws_def)
  ultimately show ?thesis
    using toon_assembled_sections[of post comments] formatCommentToon_line[of c]
      oneLineBody_words[of b] concat_ws_words[of b]
    by blast
qed

text \<open>The example post with a comment of several lines at depth 2 and a blank comment.\<close>

theorem toon_text_layout_witness:
  "toon_assembled example_post
      [example_comment 5 ([0x61, nl, nl, nl, nl, 0x62]) 2, example_comment 2 (js ''  '') 0] =
     js ''TITLE: Hello'' @ [nl] @ js ''SUBREDDIT: r/test'' @ [nl]
     @ js ''POST_AUTHOR: u/alice'' @ [nl, nl]
     @ js ''POST_BODY: (no body)'' @ [nl, nl]
     @ js ''COMMENTS:'' @ [nl]
     @ js ''d2 '' @ [middle_dot] @ js '' u/bob: a b'' @ [nl]"
proof -
  have "ws_words [0x61, nl, nl, nl, nl, 0x62] = [[0x61], [0x62]]"
    by (simp add: is_ws_def)
  moreover have "ws_words (js ''  '') = []"
    by (simp add: is_ws_def js_def)
  moreover have "toon_assembled example_post
      [example_comment 5 ([0x61, nl, nl, nl, nl, 0x62]) 2, example_comment 2 (js ''  '') 0] =
     header_block example_post @ toon_body_section example_post @ js ''COMMENTS:'' @ [nl]
     @ concat (map toon_line
        [example_comment 5 ([0x61, nl, nl, nl, nl, 0x62]) 2, example_comment 2 (js ''  '') 0])"
    using toon_text_layout[of example_post
      "[example_comment 5 ([0x61, nl, nl, nl, nl, 0x62]) 2, example_comment 2 (js ''  '') 0]"
      "example_comment 2 (js ''  '') 0" "[]"]
    by blast
  ultimately show ?thesis
    by (simp add: header_block_def toon_body_section_def body_or_sentinel_def toon_line_def
        example_comment_def example_raw_def example_post_def push_item_def
        postAuthor_def post_body_def trim_def js_def number_to_string.simps)
qed

text \<open>
  C4 as stated fails on the body section: the LLM text of the example post starts with
  its header and body section, and the compact text does not start with them, neither
  as assembled nor after the newline pass.
\<close>

theorem toon_body_section_counterexample:
  "prefix (claimed_toon_start example_post) (llm_assembled example_post [])
   \<and> \<not> prefix (claimed_toon_start example_post) (toon_assembled example_post [])
   \<and> prefix (squeeze_nl (claimed_toon_start example_post)) (render_llm example_post [])
   \<and> \<not> prefix (squeeze_nl (claimed_toon_start example_post)) (render_toon example_post [])"
  by (simp add: render_llm_def render_toon_def replace_runs_nl_squeeze
      llm_assembled_sections toon_assembled_sections claimed_toon_start_def header_block_def
      llm_body_section_def toon_body_section_def body_or_sentinel_def llm_legend_def
      example_post_def postAuthor_def post_body_def trim_def js_def)

section \<open>The JSON output\<close>





end
